theory Spec2Isabelle
  imports Complex_Main "HOL-Library.Multiset"
begin

section \<open>Panics\<close>

text \<open>
  The Go code has no error returns on its core paths: a failure is a panic. Every panic
  the code can raise is a value of \<open>error\<close>, and a function that can panic returns
  \<open>error + 'a\<close>:
  \<^item> \<open>NotInSlice x\<close> is \<^verbatim>\<open>panic("id3: '" + x + "'not in slice")\<close> of \<^verbatim>\<open>find\<close>;
  \<^item> \<open>NoRule c\<close> is \<^verbatim>\<open>panic("id3: no rule for column " + d.Column)\<close> of \<^verbatim>\<open>decide\<close>;
  \<^item> \<open>IndexOutOfRange\<close> is the runtime panic of a slice index out of range;
  \<^item> \<open>NilDereference\<close> is the runtime panic of a nil pointer dereference.
\<close>

datatype error = NotInSlice string | NoRule string | IndexOutOfRange | NilDereference

section \<open>views.go\<close>

text \<open>\<^verbatim>\<open>find\<close>: the index of the first element equal to \<open>x\<close>, or the panic.\<close>

fun find_str :: "string list \<Rightarrow> string \<Rightarrow> error + nat" where
  "find_str [] x = Inl (NotInSlice x)"
| "find_str (str # slice) x =
     (if str = x then Inr 0
      else (case find_str slice x of Inl e \<Rightarrow> Inl e | Inr i \<Rightarrow> Inr (Suc i)))"

text \<open>
  \<^verbatim>\<open>baseView\<close>: the CSV data (row 0 is the header) and the index of the next row to
  return. It is the only mutable object of a chain of views: a \<^verbatim>\<open>selectView\<close> and a
  \<^verbatim>\<open>dropView\<close> hold a pointer to their parent and no cursor, so the \<^verbatim>\<open>baseView\<close>
  at the root of the chain is the state every operation on the chain reads and updates.
  A \<open>View\<close> is the immutable chain above it: \<open>SelectView parent col val\<close> and
  \<open>DropView parent drop\<close> with the column indices that \<^verbatim>\<open>find\<close> returned.
\<close>

record baseView =
  data :: "string list list"
  nxt :: nat

datatype View = BaseView | SelectView View nat string | DropView View nat

text \<open>\<^verbatim>\<open>Read\<close>, after the CSV reader returned \<open>rows\<close>.\<close>

definition Read :: "string list list \<Rightarrow> View \<times> baseView" where
  "Read rows = (BaseView, \<lparr>data = rows, nxt = 1\<rparr>)"

text \<open>
  \<^verbatim>\<open>Columns\<close>: \<^verbatim>\<open>b.data[0]\<close> for the base view, the parent's columns for a select
  view, and a copy of the parent's columns with \<^verbatim>\<open>c[d.drop] = ""\<close> for a drop view.
\<close>

fun Columns :: "View \<Rightarrow> baseView \<Rightarrow> error + string list" where
  "Columns BaseView b = (case data b of [] \<Rightarrow> Inl IndexOutOfRange | header # _ \<Rightarrow> Inr header)"
| "Columns (SelectView parent col val) b = Columns parent b"
| "Columns (DropView parent dropped) b =
     (case Columns parent b of
        Inl e \<Rightarrow> Inl e
      | Inr c \<Rightarrow> if dropped < length c then Inr (c[dropped := []]) else Inl IndexOutOfRange)"

text \<open>\<^verbatim>\<open>First\<close>: every derived view delegates to its parent, the base sets \<^verbatim>\<open>next = 1\<close>.\<close>

fun First :: "View \<Rightarrow> baseView \<Rightarrow> baseView" where
  "First BaseView b = b\<lparr>nxt := 1\<rparr>"
| "First (SelectView parent col val) b = First parent b"
| "First (DropView parent dropped) b = First parent b"

text \<open>
  \<^verbatim>\<open>Next\<close>: \<open>None\<close> is the nil row. The base view skips the header, returns nil at the
  end of the data and otherwise \<^verbatim>\<open>b.data[b.next]\<close>, which panics when \<^verbatim>\<open>next\<close> is
  beyond the data. The select view pulls rows from its parent until one has \<^verbatim>\<open>val\<close>
  in column \<^verbatim>\<open>col\<close>; \<^verbatim>\<open>row[s.col]\<close> panics on a short row.
\<close>

definition baseView_Next :: "baseView \<Rightarrow> error + (string list option \<times> baseView)" where
  "baseView_Next b0 =
     (let b = (if nxt b0 = 0 then b0\<lparr>nxt := 1\<rparr> else b0) in
      if nxt b = length (data b) then Inr (None, b)
      else if nxt b < length (data b) then Inr (Some (data b ! nxt b), b\<lparr>nxt := nxt b + 1\<rparr>)
      else Inl IndexOutOfRange)"

function Next :: "View \<Rightarrow> baseView \<Rightarrow> error + (string list option \<times> baseView)" where
  "Next BaseView b = baseView_Next b"
| "Next (DropView parent dropped) b = Next parent b"
| "Next (SelectView parent col val) b =
     (case Next parent b of
        Inl e \<Rightarrow> Inl e
      | Inr (None, b') \<Rightarrow> Inr (None, b')
      | Inr (Some row, b') \<Rightarrow>
          if col < length row
          then (if row ! col = val then Inr (Some row, b') else Next (SelectView parent col val) b')
          else Inl IndexOutOfRange)"
  by pat_completeness auto

lemma baseView_Next_advances:
  "baseView_Next b = Inr (Some row, b') \<Longrightarrow>
     data b' = data b \<and> nxt b < nxt b' \<and> nxt b' \<le> length (data b)"
  by (auto simp: baseView_Next_def Let_def split: if_splits)

lemma Next_advances_dom:
  "Next_dom (v, b) \<Longrightarrow> Next v b = Inr (Some row, b') \<Longrightarrow>
     data b' = data b \<and> nxt b < nxt b' \<and> nxt b' \<le> length (data b)"
proof (induction v b arbitrary: row b' rule: Next.pinduct)
  case (1 b)
  then show ?case using baseView_Next_advances[of b row b'] by (simp add: Next.psimps)
next
  case (2 parent dropped b)
  then show ?case by (simp add: Next.psimps)
next
  case (3 parent col val b)
  from "3.prems" "3.hyps" obtain r b1 where
    p: "Next parent b = Inr (Some r, b1)" and c: "col < length r"
    by (auto simp: Next.psimps split: sum.splits option.splits if_splits)
  from "3.IH"(1)[OF p] have a: "data b1 = data b" "nxt b < nxt b1" "nxt b1 \<le> length (data b)"
    by auto
  show ?case
  proof (cases "r ! col = val")
    case True
    with p c "3.prems" "3.hyps" have "row = r" "b' = b1" by (auto simp: Next.psimps)
    with a show ?thesis by simp
  next
    case False
    with p c "3.prems" "3.hyps" have "Next (SelectView parent col val) b1 = Inr (Some row, b')"
      by (auto simp: Next.psimps)
    from "3.IH"(2)[OF p refl refl c False this] a show ?thesis by simp
  qed
qed

termination Next
  by (relation "measures [\<lambda>(v, b). length (data b) - nxt b, \<lambda>(v, b). size v]")
     (auto dest!: Next_advances_dom)

text \<open>
  \<^verbatim>\<open>Select\<close> and \<^verbatim>\<open>Drop\<close> are the same on the three kinds of view: the index of the
  column among the view's own \<^verbatim>\<open>Columns()\<close>, or the panic of \<^verbatim>\<open>find\<close>.
\<close>

definition Select :: "View \<Rightarrow> string \<Rightarrow> string \<Rightarrow> baseView \<Rightarrow> error + View" where
  "Select view column val b =
     (case Columns view b of
        Inl e \<Rightarrow> Inl e
      | Inr c \<Rightarrow> (case find_str c column of Inl e \<Rightarrow> Inl e | Inr i \<Rightarrow> Inr (SelectView view i val)))"

definition Drop :: "View \<Rightarrow> string \<Rightarrow> baseView \<Rightarrow> error + View" where
  "Drop view column b =
     (case Columns view b of
        Inl e \<Rightarrow> Inl e
      | Inr c \<Rightarrow> (case find_str c column of Inl e \<Rightarrow> Inl e | Inr i \<Rightarrow> Inr (DropView view i)))"

section \<open>decisions.go\<close>

text \<open>
  \<^verbatim>\<open>Decision{Column string; Cases []*Case}\<close> and
  \<^verbatim>\<open>Case{Value, Class string; Decide *Decision}\<close>. Both pointer types can be nil,
  so an element of \<open>Cases\<close> and the field \<open>Decide\<close> are options.
\<close>

datatype Decision = Decision (Column: string) (Cases: "Case option list")
  and Case = Case (Case_Value: string) (Class: string) (Decide: "Decision option")

text \<open>
  \<^verbatim>\<open>Decision.decide\<close>. \<open>decide_cases\<close> is its \<^verbatim>\<open>for _, c := range d.Cases\<close> loop,
  which ends in the panic when no case matched. A nil \<^verbatim>\<open>*Case\<close> panics at
  \<^verbatim>\<open>c.Value\<close>, a nil \<^verbatim>\<open>c.Decide\<close> at \<^verbatim>\<open>d.Column\<close> of the callee.
\<close>

fun decide :: "Decision \<Rightarrow> string list list \<Rightarrow> nat \<Rightarrow> error + string"
  and decide_cases ::
    "Case option list \<Rightarrow> string \<Rightarrow> string \<Rightarrow> string list list \<Rightarrow> nat \<Rightarrow> error + string"
where
  "decide (Decision column cases) rows at_row =
     (case rows of
        [] \<Rightarrow> Inl IndexOutOfRange
      | header # _ \<Rightarrow>
         (case find_str header column of
            Inl e \<Rightarrow> Inl e
          | Inr i \<Rightarrow>
             if at_row < length rows
             then (if i < length (rows ! at_row)
                   then decide_cases cases column (rows ! at_row ! i) rows at_row
                   else Inl IndexOutOfRange)
             else Inl IndexOutOfRange))"
| "decide_cases [] column v rows at_row = Inl (NoRule column)"
| "decide_cases (None # cs) column v rows at_row = Inl NilDereference"
| "decide_cases (Some (Case cv cl dec) # cs) column v rows at_row =
     (if v = cv
      then (if cl \<noteq> [] then Inr cl
            else (case dec of
                    None \<Rightarrow> Inl NilDereference
                  | Some d \<Rightarrow> decide d rows at_row))
      else decide_cases cs column v rows at_row)"

text \<open>
  \<^verbatim>\<open>Decision.Decide\<close>: one label per row after the header, in row order; the first
  panic ends the call.
\<close>

fun Decide_from :: "Decision \<Rightarrow> string list list \<Rightarrow> nat list \<Rightarrow> string list \<Rightarrow> error + string list" where
  "Decide_from d rows [] result = Inr result"
| "Decide_from d rows (i # is) result =
     (if i = 0 then Decide_from d rows is result
      else (case decide d rows i of
              Inl e \<Rightarrow> Inl e
            | Inr label \<Rightarrow> Decide_from d rows is (result @ [label])))"

definition Decide_rows :: "Decision \<Rightarrow> string list list \<Rightarrow> error + string list" where
  "Decide_rows d rows = Decide_from d rows [0 ..< length rows] []"

section \<open>learn.go\<close>

text \<open>
  \<^verbatim>\<open>float64\<close> is idealised as \<open>real\<close>: counts, probabilities and entropies are exact,
  and rounding is not modelled. \<^verbatim>\<open>Distinct{Value string; Probability float64}\<close>:
\<close>

datatype Distinct = Distinct (Value: string) (Probability: real)

text \<open>
  The Go map \<^verbatim>\<open>distinct := make(map[string]float64)\<close> is an association list with one
  entry per key. \<open>map_incr\<close> is the body
  \<^verbatim>\<open>if _, ok := distinct[v]; !ok { distinct[v] = 0 }; distinct[v]++\<close>.
\<close>

fun map_incr :: "(string \<times> real) list \<Rightarrow> string \<Rightarrow> (string \<times> real) list" where
  "map_incr [] v = [(v, 0 + 1)]"
| "map_incr ((k, n) # m) v = (if k = v then (k, n + 1) # m else (k, n) # map_incr m v)"

text \<open>
  \<^verbatim>\<open>for k, v := range distinct\<close>: Go leaves the iteration order of a map unspecified and
  the runtime draws it afresh for every \<^verbatim>\<open>range\<close> statement. The order of one
  \<^verbatim>\<open>range\<close> is a ranking of the keys, \<open>rank :: string \<Rightarrow> nat\<close>: the entries are visited
  by increasing rank. The runtime's source of orders is \<open>rnd :: nat \<Rightarrow> string \<Rightarrow> nat\<close>,
  the ranking of its \<open>k\<close>-th \<^verbatim>\<open>range\<close> over a map, and the number \<open>k\<close> of such statements
  executed so far is part of the state, next to the \<^verbatim>\<open>baseView\<close>.
\<close>

definition map_range :: "(string \<Rightarrow> nat) \<Rightarrow> (string \<times> real) list \<Rightarrow> (string \<times> real) list" where
  "map_range rank m = sort_key (\<lambda>kv. rank (fst kv)) m"

text \<open>
  \<^verbatim>\<open>sort.Slice(sorted, func(i, j int) bool { return sorted[i].Probability > sorted[j].Probability })\<close>.
  \<^verbatim>\<open>sort.Slice\<close> promises a permutation ordered by \<^verbatim>\<open>less\<close> and no stability. Its input
  here is already in the arbitrary order of the map, so a stable sort after \<open>map_range\<close>
  produces every order that the code can produce.
\<close>

definition sort_Slice :: "Distinct list \<Rightarrow> Distinct list" where
  "sort_Slice ds = sort_key (\<lambda>d. - Probability d) ds"

text \<open>
  The first loop of \<^verbatim>\<open>Likelihood\<close>: every row that \<^verbatim>\<open>view.Next()\<close> returns is tallied
  under its value \<^verbatim>\<open>row[i]\<close> until \<^verbatim>\<open>Next\<close> returns nil.
\<close>

function Likelihood_loop ::
  "View \<Rightarrow> nat \<Rightarrow> (string \<times> real) list \<Rightarrow> real \<Rightarrow> baseView
     \<Rightarrow> error + (((string \<times> real) list \<times> real) \<times> baseView)" where
  "Likelihood_loop view i distinct_map total' b =
     (case Next view b of
        Inl e \<Rightarrow> Inl e
      | Inr (None, b') \<Rightarrow> Inr ((distinct_map, total'), b')
      | Inr (Some row, b') \<Rightarrow>
          if i < length row
          then Likelihood_loop view i (map_incr distinct_map (row ! i)) (total' + 1) b'
          else Inl IndexOutOfRange)"
  by pat_completeness auto

lemma Next_advances:
  "Next v b = Inr (Some row, b') \<Longrightarrow>
     data b' = data b \<and> nxt b < nxt b' \<and> nxt b' \<le> length (data b)"
proof (induction v b arbitrary: row b' rule: Next.induct)
  case (1 b)
  then show ?case using baseView_Next_advances[of b row b'] by simp
next
  case (2 parent dropped b)
  then show ?case by simp
next
  case (3 parent col val b)
  from "3.prems" obtain r b1 where
    p: "Next parent b = Inr (Some r, b1)" and c: "col < length r"
    by (auto split: sum.splits option.splits if_splits)
  from "3.IH"(1)[OF p] have a: "data b1 = data b" "nxt b < nxt b1" "nxt b1 \<le> length (data b)"
    by auto
  show ?case
  proof (cases "r ! col = val")
    case True
    with p c "3.prems" have "row = r" "b' = b1" by auto
    with a show ?thesis by simp
  next
    case False
    with p c "3.prems" have "Next (SelectView parent col val) b1 = Inr (Some row, b')"
      by auto
    from "3.IH"(2)[OF p refl refl c False this] a show ?thesis by simp
  qed
qed

termination Likelihood_loop
  by (relation "measure (\<lambda>(view, i, m, total', b). length (data b) - nxt b)")
     (auto dest!: Next_advances)

definition Likelihood ::
  "(nat \<Rightarrow> string \<Rightarrow> nat) \<Rightarrow> View \<Rightarrow> string \<Rightarrow> baseView \<times> nat
     \<Rightarrow> error + (Distinct list \<times> (baseView \<times> nat))" where
  "Likelihood rnd view column s =
     (case Columns view (fst s) of
        Inl e \<Rightarrow> Inl e
      | Inr c \<Rightarrow>
         (case find_str c column of
            Inl e \<Rightarrow> Inl e
          | Inr i \<Rightarrow>
             (case Likelihood_loop view i [] 0 (First view (fst s)) of
                Inl e \<Rightarrow> Inl e
              | Inr ((distinct_map, total'), b') \<Rightarrow>
                  Inr (sort_Slice
                         (map (\<lambda>kv. Distinct (fst kv) (snd kv / total'))
                            (map_range (rnd (snd s)) distinct_map)),
                       (b', Suc (snd s))))))"

definition Entropy :: "real \<Rightarrow> real" where
  "Entropy p = (if p = 0 \<or> p = 1 then 0 else - p * log 2 p)"







section \<open>Classification\<close>

lemma decide_cases_no_match:
  "\<forall>c. Some c \<in> set cs \<longrightarrow> Case_Value c \<noteq> v \<Longrightarrow>
     decide_cases cs column v rows at_row =
       Inl (if None \<in> set cs then NilDereference else NoRule column)"
proof (induction cs)
  case Nil
  show ?case by simp
next
  case (Cons x cs)
  show ?case
  proof (cases x)
    case None
    then show ?thesis by simp
  next
    case (Some c)
    obtain cv cl dec where c: "c = Case cv cl dec" by (cases c)
    from Cons.prems Some c have "cv \<noteq> v" by auto
    moreover from Cons have "decide_cases cs column v rows at_row =
        Inl (if None \<in> set cs then NilDereference else NoRule column)" by simp
    ultimately show ?thesis using Some c by auto
  qed
qed

lemma decide_cases_match:
  "\<forall>x \<in> set pre. \<exists>c'. x = Some c' \<and> Case_Value c' \<noteq> v \<Longrightarrow>
     decide_cases (pre @ Some (Case v cl dec) # post) column v rows at_row =
       (if cl \<noteq> [] then Inr cl
        else (case dec of None \<Rightarrow> Inl NilDereference | Some d \<Rightarrow> decide d rows at_row))"
proof (induction pre)
  case Nil
  show ?case by simp
next
  case (Cons x pre)
  from Cons.prems obtain c' where x: "x = Some c'" and ne: "Case_Value c' \<noteq> v" by auto
  obtain cv' cl' dec' where c': "c' = Case cv' cl' dec'" by (cases c')
  from Cons have "decide_cases (pre @ Some (Case v cl dec) # post) column v rows at_row =
       (if cl \<noteq> [] then Inr cl
        else (case dec of None \<Rightarrow> Inl NilDereference | Some d \<Rightarrow> decide d rows at_row))"
    by simp
  with x c' ne show ?case by auto
qed

lemma decide_unfold:
  "rows = header # rest \<Longrightarrow> find_str header (Column d) = Inr i \<Longrightarrow> at_row < length rows \<Longrightarrow>
   i < length (rows ! at_row) \<Longrightarrow>
     decide d rows at_row = decide_cases (Cases d) (Column d) (rows ! at_row ! i) rows at_row"
  by (cases d) simp

text \<open>
  The decisions that the classification of row \<open>at_row\<close> visits from the decision \<open>tree\<close>: \<open>tree\<close> itself, and
  from a visited decision the one behind its first case with the value of the row, when
  that case has the empty \<open>Class\<close> and a \<open>Decide\<close>.
\<close>

inductive visits :: "Decision \<Rightarrow> string list list \<Rightarrow> nat \<Rightarrow> Decision \<Rightarrow> bool"
  for tree :: Decision and rows :: "string list list" and at_row :: nat
where
  visits_root: "visits tree rows at_row tree"
| visits_step: "visits tree rows at_row d \<Longrightarrow> rows = header # rest \<Longrightarrow>
     find_str header (Column d) = Inr i \<Longrightarrow> at_row < length rows \<Longrightarrow>
     i < length (rows ! at_row) \<Longrightarrow> Cases d = pre @ Some (Case (rows ! at_row ! i) [] (Some d')) # post \<Longrightarrow>
     \<forall>x \<in> set pre. \<exists>c'. x = Some c' \<and> Case_Value c' \<noteq> rows ! at_row ! i \<Longrightarrow>
     visits tree rows at_row d'"

lemma visits_decide: "visits tree rows at_row d \<Longrightarrow> decide tree rows at_row = decide d rows at_row"
proof (induction rule: visits.induct)
  case visits_root
  show ?case by simp
next
  case (visits_step d header rest i pre d' post)
  have "decide d rows at_row =
      decide_cases (Cases d) (Column d) (rows ! at_row ! i) rows at_row"
    using visits_step.hyps(2-5) by (rule decide_unfold)
  also have "\<dots> = decide d' rows at_row"
    unfolding visits_step.hyps(6)
    using decide_cases_match[OF visits_step.hyps(7), of "[]" "Some d'" post "Column d" rows at_row]
    by simp
  finally show ?case using visits_step.IH by simp
qed

lemma Decide_from_panics:
  "j \<in> set js \<Longrightarrow> j \<noteq> 0 \<Longrightarrow> decide d rows j = Inl e \<Longrightarrow>
     \<exists>k e'. k \<in> set js \<and> k \<noteq> 0 \<and> decide d rows k = Inl e' \<and> Decide_from d rows js acc = Inl e'"
proof (induction js arbitrary: acc)
  case Nil
  then show ?case by simp
next
  case (Cons a js)
  show ?case
  proof (cases "a = 0")
    case True
    with Cons.prems have "j \<in> set js" by auto
    from Cons.IH[OF this Cons.prems(2,3), of acc] True show ?thesis by auto
  next
    case False
    show ?thesis
    proof (cases "decide d rows a")
      case (Inl e')
      with False show ?thesis by auto
    next
      case (Inr label)
      with Cons.prems have "j \<in> set js" by auto
      from Cons.IH[OF this Cons.prems(2,3), of "acc @ [label]"] False Inr show ?thesis by auto
    qed
  qed
qed

text \<open>
  C4 as it is worded fails on a tree with a nil \<^verbatim>\<open>*Case\<close> (\<^verbatim>\<open>FromJSON\<close> accepts
  \<^verbatim>\<open>"Cases":[null]\<close>): the scan dereferences the nil pointer at \<^verbatim>\<open>c.Value\<close> and never
  reaches the panic for the unrecognized value.
\<close>

theorem decide_unrecognized_counterexample:
  "decide (Decision ''outlook'' [None]) [[''outlook''], [''rain'']] 1 = Inl NilDereference
   \<and> decide (Decision ''outlook'' [None]) [[''outlook''], [''rain'']] 1 \<noteq> Inl (NoRule ''outlook'')"
  by simp

text \<open>
  C4, amended. Let the classification of a row after the header visit a decision, the
  root or a nested one, in whose column the value of the row equals the value of none of
  the cases. Then the root \<open>decide\<close> returns no label: it panics, with \<open>NoRule\<close> and the
  column of that decision (\<^verbatim>\<open>"id3: no rule for column ..."\<close>) when no element of its
  \<open>Cases\<close> is nil, and with the nil dereference when one is. And \<^verbatim>\<open>Decide\<close> on the data
  returns no labels either: it ends in the panic of one of the rows.
\<close>

theorem decide_unrecognized:
  assumes "visits tree rows at_row d"
    and "rows = header # rest"
    and "find_str header (Column d) = Inr i"
    and "0 < at_row" and "at_row < length rows"
    and "i < length (rows ! at_row)"
    and "\<forall>c. Some c \<in> set (Cases d) \<longrightarrow> Case_Value c \<noteq> rows ! at_row ! i"
  shows "decide tree rows at_row =
           Inl (if None \<in> set (Cases d) then NilDereference else NoRule (Column d))
     \<and> (\<exists>k e. 0 < k \<and> k < length rows \<and> decide tree rows k = Inl e \<and> Decide_rows tree rows = Inl e)"
proof -
  have "decide d rows at_row =
      decide_cases (Cases d) (Column d) (rows ! at_row ! i) rows at_row"
    using assms(2,3,5,6) by (rule decide_unfold)
  also have "\<dots> = Inl (if None \<in> set (Cases d) then NilDereference else NoRule (Column d))"
    using assms(7) by (rule decide_cases_no_match)
  finally have 1: "decide tree rows at_row =
      Inl (if None \<in> set (Cases d) then NilDereference else NoRule (Column d))"
    using visits_decide[OF assms(1)] by simp
  have "at_row \<in> set [0 ..< length rows]" using assms(5) by simp
  from Decide_from_panics[OF this _ 1, of "[]"] assms(4)
  obtain k e where "k \<in> set [0 ..< length rows]" "k \<noteq> 0" "decide tree rows k = Inl e"
    "Decide_from tree rows [0 ..< length rows] [] = Inl e" by auto
  then have "0 < k \<and> k < length rows \<and> decide tree rows k = Inl e \<and> Decide_rows tree rows = Inl e"
    by (simp add: Decide_rows_def)
  then have 2: "\<exists>k e. 0 < k \<and> k < length rows \<and> decide tree rows k = Inl e \<and> Decide_rows tree rows = Inl e"
    by (intro exI)
  from 1 2 show ?thesis by (rule conjI)
qed

theorem decide_unrecognized_witness:
  "decide (Decision ''outlook''
       [Some (Case ''sunny'' [] (Some (Decision ''humidity''
          [Some (Case ''high'' ''no'' None), Some (Case ''normal'' ''yes'' None)]))),
        Some (Case ''overcast'' ''yes'' None)])
     [[''outlook'', ''humidity''], [''sunny'', ''low'']] 1 = Inl (NoRule ''humidity'')
   \<and> Decide_rows (Decision ''outlook''
       [Some (Case ''sunny'' [] (Some (Decision ''humidity''
          [Some (Case ''high'' ''no'' None), Some (Case ''normal'' ''yes'' None)]))),
        Some (Case ''overcast'' ''yes'' None)])
     [[''outlook'', ''humidity''], [''sunny'', ''low'']] = Inl (NoRule ''humidity'')"
proof -
  let ?inner = "Decision ''humidity'' [Some (Case ''high'' ''no'' None), Some (Case ''normal'' ''yes'' None)]"
  let ?tree = "Decision ''outlook'' [Some (Case ''sunny'' [] (Some ?inner)), Some (Case ''overcast'' ''yes'' None)]"
  let ?rows = "[[''outlook'', ''humidity''], [''sunny'', ''low'']]"
  have v: "visits ?tree ?rows 1 ?inner"
    by (rule visits_step[OF visits_root, of ?rows "[''outlook'', ''humidity'']" "[[''sunny'', ''low'']]"
          ?tree 0 1 "[]" ?inner "[Some (Case ''overcast'' ''yes'' None)]"]) simp_all
  have "decide ?tree ?rows 1 = Inl (NoRule ''humidity'')"
    using decide_unrecognized[OF v, of "[''outlook'', ''humidity'']" "[[''sunny'', ''low'']]" 1]
    by simp
  moreover have "Decide_rows ?tree ?rows = Inl (NoRule ''humidity'')"
    by (simp add: Decide_rows_def upt_rec)
  ultimately show ?thesis by simp
qed

text \<open>
  C10. \<open>decide\<close> tells a leaf from a nested decision by \<^verbatim>\<open>c.Class != ""\<close> alone. At the
  first case whose value is the value of the row: a non-empty \<open>Class\<close> is the label; an
  empty \<open>Class\<close> makes \<open>decide\<close> follow \<open>Decide\<close>, and the result is the nil dereference
  when \<open>Decide\<close> is nil, whatever the tree came from.
\<close>

theorem decide_empty_class:
  assumes "rows = header # rest"
    and "find_str header (Column d) = Inr i"
    and "at_row < length rows"
    and "i < length (rows ! at_row)"
    and "Cases d = pre @ Some c # post"
    and "\<forall>x \<in> set pre. \<exists>c'. x = Some c' \<and> Case_Value c' \<noteq> rows ! at_row ! i"
    and "Case_Value c = rows ! at_row ! i"
  shows "decide d rows at_row =
           (if Class c \<noteq> [] then Inr (Class c)
            else (case Decide c of
                    None \<Rightarrow> Inl NilDereference
                  | Some d' \<Rightarrow> decide d' rows at_row))"
proof -
  obtain cv cl dec where c: "c = Case cv cl dec" by (cases c)
  with assms(7) have cv: "cv = rows ! at_row ! i" by simp
  have "decide d rows at_row =
      decide_cases (Cases d) (Column d) (rows ! at_row ! i) rows at_row"
    using assms(1-4) by (rule decide_unfold)
  also have "\<dots> = (if cl \<noteq> [] then Inr cl
        else (case dec of None \<Rightarrow> Inl NilDereference | Some d' \<Rightarrow> decide d' rows at_row))"
    unfolding assms(5) c cv using assms(6) by (rule decide_cases_match)
  finally show ?thesis using c by simp
qed

theorem decide_empty_class_witness:
  "decide (Decision ''a'' [Some (Case ''x'' [] None)]) [[''a'', ''play''], [''x'', []]] 1
     = Inl NilDereference"
  using decide_empty_class[of "[[''a'', ''play''], [''x'', []]]" "[''a'', ''play'']" "[[''x'', []]]"
      "Decision ''a'' [Some (Case ''x'' [] None)]" 0 1 "[]" "Case ''x'' [] None" "[]"]
  by simp

section \<open>The rows of a view\<close>

text \<open>
  What a chain of views shows of a list of data rows: a select view keeps the rows of its
  parent that have its value in its column, a drop view keeps them all. \<open>ix_ok view n\<close>
  says that every column index in the chain is below \<open>n\<close>. \<open>wf_view\<close> is what \<^verbatim>\<open>Read\<close>,
  \<^verbatim>\<open>Select\<close> and \<^verbatim>\<open>Drop\<close> establish: the data has a header, every row has as many
  fields as the header (the CSV reader refuses anything else), and the indices of the
  chain, which \<^verbatim>\<open>find\<close> returned, are indices of the header.
\<close>

fun view_rows :: "View \<Rightarrow> string list list \<Rightarrow> string list list" where
  "view_rows BaseView rs = rs"
| "view_rows (SelectView parent col val) rs = filter (\<lambda>r. r ! col = val) (view_rows parent rs)"
| "view_rows (DropView parent dropped) rs = view_rows parent rs"

fun ix_ok :: "View \<Rightarrow> nat \<Rightarrow> bool" where
  "ix_ok BaseView n = True"
| "ix_ok (SelectView parent col val) n = (col < n \<and> ix_ok parent n)"
| "ix_ok (DropView parent dropped) n = (dropped < n \<and> ix_ok parent n)"

definition wf_view :: "View \<Rightarrow> baseView \<Rightarrow> bool" where
  "wf_view view b =
     (data b \<noteq> [] \<and> list_all (\<lambda>r. length r = length (hd (data b))) (data b)
      \<and> ix_ok view (length (hd (data b))))"

definition rows_of :: "View \<Rightarrow> baseView \<Rightarrow> string list list" where
  "rows_of view b = view_rows view (tl (data b))"

lemma Columns_data: "data b1 = data b2 \<Longrightarrow> Columns v b1 = Columns v b2"
  by (induction v) auto

lemma First_eq: "First v b = b\<lparr>nxt := 1\<rparr>"
  by (induction v) auto

lemma view_rows_subset: "set (view_rows v rs) \<subseteq> set rs"
  by (induction v) auto

lemma view_rows_Nil [simp]: "view_rows v [] = []"
  by (induction v) auto

lemma baseView_Next_sem:
  assumes "nxt b \<noteq> 0" "nxt b \<le> length (data b)"
  shows "baseView_Next b =
     (if nxt b = length (data b) then Inr (None, b)
      else Inr (Some (data b ! nxt b), b\<lparr>nxt := Suc (nxt b)\<rparr>))"
  using assms by (auto simp: baseView_Next_def Let_def)

lemma baseView_eqI: "data (x::baseView) = data y \<Longrightarrow> nxt x = nxt y \<Longrightarrow> x = y"
  by simp

lemma Next_sem:
  assumes "nxt b \<noteq> 0" "nxt b \<le> length (data b)" "ix_ok v n" "\<forall>r \<in> set (data b). n \<le> length r"
  shows "(\<exists>b'. Next v b = Inr (None, b') \<and> data b' = data b \<and> nxt b' = length (data b)
             \<and> view_rows v (drop (nxt b) (data b)) = [])
       \<or> (\<exists>r b'. Next v b = Inr (Some r, b') \<and> data b' = data b \<and> nxt b < nxt b'
             \<and> nxt b' \<le> length (data b)
             \<and> view_rows v (drop (nxt b) (data b)) = r # view_rows v (drop (nxt b') (data b)))"
  using assms
proof (induction v b rule: Next.induct)
  case (1 b)
  show ?case
  proof (cases "nxt b = length (data b)")
    case True
    with 1 show ?thesis by (simp add: baseView_Next_sem)
  next
    case False
    with 1 have lt: "nxt b < length (data b)" by simp
    then have "drop (nxt b) (data b) = data b ! nxt b # drop (Suc (nxt b)) (data b)"
      by (simp add: Cons_nth_drop_Suc)
    with 1 False lt show ?thesis by (simp add: baseView_Next_sem)
  qed
next
  case (2 parent dropped b)
  then show ?case by simp
next
  case (3 parent col val b)
  from "3.prems" have ok: "ix_ok parent n" and c: "col < n" by auto
  from "3.IH"(1)[OF "3.prems"(1,2) ok "3.prems"(4)]
  show ?case
  proof (elim disjE exE conjE)
    fix b' assume "Next parent b = Inr (None, b')" "data b' = data b" "nxt b' = length (data b)"
      "view_rows parent (drop (nxt b) (data b)) = []"
    then show ?thesis by simp
  next
    fix r b' assume p: "Next parent b = Inr (Some r, b')" and d: "data b' = data b"
      and lt: "nxt b < nxt b'" and le: "nxt b' \<le> length (data b)"
      and vr: "view_rows parent (drop (nxt b) (data b)) = r # view_rows parent (drop (nxt b') (data b))"
    have "r \<in> set (view_rows parent (drop (nxt b) (data b)))" using vr by simp
    then have "r \<in> set (data b)"
      using view_rows_subset[of parent "drop (nxt b) (data b)"] set_drop_subset[of "nxt b" "data b"]
      by auto
    with "3.prems"(4) c have cr: "col < length r" by force
    show ?thesis
    proof (cases "r ! col = val")
      case True
      with p cr d lt le vr show ?thesis by simp
    next
      case False
      have ne: "nxt b' \<noteq> 0" using lt by simp
      have le': "nxt b' \<le> length (data b')" using le d by simp
      have all': "\<forall>r \<in> set (data b'). n \<le> length r" using "3.prems"(4) d by simp
      have step: "Next (SelectView parent col val) b = Next (SelectView parent col val) b'"
        using p cr False by simp
      have rows: "view_rows (SelectView parent col val) (drop (nxt b) (data b)) =
          view_rows (SelectView parent col val) (drop (nxt b') (data b'))"
        using vr False d by simp
      from "3.IH"(2)[OF p refl refl cr False ne le' "3.prems"(3) all']
      show ?thesis unfolding step rows using d lt by (elim disjE exE conjE) auto
    qed
  qed
qed

section \<open>The cursor of a chain of views\<close>

text \<open>
  C9 as it is worded fails. A select view composed from the base view has no cursor of its
  own: reading one row through it moves the cursor of the base view, and the base view,
  which returned the first row before, returns the second row after.
\<close>

theorem derived_view_cursor_counterexample:
  "Select BaseView ''h'' ''x'' \<lparr>data = [[''h''], [''x''], [''y'']], nxt = 1\<rparr>
      = Inr (SelectView BaseView 0 ''x'')
   \<and> Next BaseView \<lparr>data = [[''h''], [''x''], [''y'']], nxt = 1\<rparr>
      = Inr (Some [''x''], \<lparr>data = [[''h''], [''x''], [''y'']], nxt = 2\<rparr>)
   \<and> Next (SelectView BaseView 0 ''x'') \<lparr>data = [[''h''], [''x''], [''y'']], nxt = 1\<rparr>
      = Inr (Some [''x''], \<lparr>data = [[''h''], [''x''], [''y'']], nxt = 2\<rparr>)
   \<and> Next BaseView \<lparr>data = [[''h''], [''x''], [''y'']], nxt = 2\<rparr>
      = Inr (Some [''y''], \<lparr>data = [[''h''], [''x''], [''y'']], nxt = 3\<rparr>)"
  by (simp add: Select_def baseView_Next_def)

text \<open>
  C9, amended. A view composed by \<open>Select\<close> or \<open>Drop\<close> shares the cursor of its parent:
  \<open>First\<close> on it is \<open>First\<close> on the parent, which sets the one cursor of the chain to 1;
  \<open>Next\<close> on a drop view is \<open>Next\<close> on the parent; and every row that \<open>Next\<close> returns
  through a select view moves that cursor forward.
\<close>

theorem derived_view_shares_cursor:
  assumes "Select parent column val b0 = Inr sv"
    and "Drop parent column' b0 = Inr dv"
  shows "First sv b = First parent b \<and> First dv b = First parent b
     \<and> First parent b = b\<lparr>nxt := 1\<rparr>
     \<and> Next dv b = Next parent b
     \<and> (\<forall>row b'. Next sv b = Inr (Some row, b') \<longrightarrow> data b' = data b \<and> nxt b < nxt b')"
proof -
  from assms(1) obtain i where sv: "sv = SelectView parent i val"
    by (auto simp: Select_def split: sum.splits)
  from assms(2) obtain j where dv: "dv = DropView parent j"
    by (auto simp: Drop_def split: sum.splits)
  have 1: "First sv b = First parent b" using sv by simp
  have 2: "First dv b = First parent b" using dv by simp
  have 3: "First parent b = b\<lparr>nxt := 1\<rparr>" by (rule First_eq)
  have 4: "Next dv b = Next parent b" using dv by simp
  have 5: "\<forall>row b'. Next sv b = Inr (Some row, b') \<longrightarrow> data b' = data b \<and> nxt b < nxt b'"
  proof (intro allI impI)
    fix row b' assume "Next sv b = Inr (Some row, b')"
    from Next_advances[OF this] show "data b' = data b \<and> nxt b < nxt b'" by simp
  qed
  show ?thesis by (intro conjI) (rule 1 2 3 4 5)+
qed

theorem derived_view_shares_cursor_witness:
  "First (SelectView BaseView 0 ''y'') \<lparr>data = [[''h''], [''x''], [''y'']], nxt = 3\<rparr>
      = \<lparr>data = [[''h''], [''x''], [''y'']], nxt = 1\<rparr>
   \<and> First (DropView BaseView 0) \<lparr>data = [[''h''], [''x''], [''y'']], nxt = 3\<rparr>
      = \<lparr>data = [[''h''], [''x''], [''y'']], nxt = 1\<rparr>
   \<and> Next (DropView BaseView 0) \<lparr>data = [[''h''], [''x''], [''y'']], nxt = 3\<rparr>
      = Next BaseView \<lparr>data = [[''h''], [''x''], [''y'']], nxt = 3\<rparr>
   \<and> Next (SelectView BaseView 0 ''y'') \<lparr>data = [[''h''], [''x''], [''y'']], nxt = 1\<rparr>
      = Inr (Some [''y''], \<lparr>data = [[''h''], [''x''], [''y'']], nxt = 3\<rparr>)
   \<and> nxt \<lparr>data = [[''h''], [''x''], [''y'']], nxt = 1\<rparr>
      < nxt \<lparr>data = [[''h''], [''x''], [''y'']], nxt = 3\<rparr>"
proof -
  let ?B1 = "\<lparr>data = [[''h''], [''x''], [''y'']], nxt = 1\<rparr>"
  let ?B3 = "\<lparr>data = [[''h''], [''x''], [''y'']], nxt = 3\<rparr>"
  have sel: "Select BaseView ''h'' ''y'' ?B1 = Inr (SelectView BaseView 0 ''y'')"
    by (simp add: Select_def)
  have drp: "Drop BaseView ''h'' ?B1 = Inr (DropView BaseView 0)"
    by (simp add: Drop_def)
  note at3 = derived_view_shares_cursor[OF sel drp, of ?B3]
  note at1 = derived_view_shares_cursor[OF sel drp, of ?B1]
  have nx: "Next (SelectView BaseView 0 ''y'') ?B1 = Inr (Some [''y''], ?B3)"
    by (simp add: baseView_Next_def)
  from at3 have 1: "First (SelectView BaseView 0 ''y'') ?B3 = First BaseView ?B3"
    by (rule conjunct1)
  from at3 have 2: "First (DropView BaseView 0) ?B3 = First BaseView ?B3"
    by (rule conjunct1[OF conjunct2])
  from at3 have 3: "First BaseView ?B3 = ?B3\<lparr>nxt := 1\<rparr>"
    by (rule conjunct1[OF conjunct2[OF conjunct2]])
  from at3 have 4: "Next (DropView BaseView 0) ?B3 = Next BaseView ?B3"
    by (rule conjunct1[OF conjunct2[OF conjunct2[OF conjunct2]]])
  from at1 have "\<forall>row b'. Next (SelectView BaseView 0 ''y'') ?B1 = Inr (Some row, b')
      \<longrightarrow> data b' = data ?B1 \<and> nxt ?B1 < nxt b'"
    by (rule conjunct2[OF conjunct2[OF conjunct2[OF conjunct2]]])
  from this[rule_format, OF nx] have 5: "nxt ?B1 < nxt ?B3" by (rule conjunct2)
  from 1 3 have f1: "First (SelectView BaseView 0 ''y'') ?B3 = ?B1" by simp
  from 2 3 have f2: "First (DropView BaseView 0) ?B3 = ?B1" by simp
  show ?thesis by (intro conjI) (rule f1 f2 4 nx 5)+
qed

section \<open>The likelihood of a column\<close>

text \<open>
  On a well-formed view \<open>Likelihood\<close> does not panic once the column is found. Its loop
  tallies the values of the column over the rows of the view, and its result is the
  \<open>distribution\<close> of these values under the order that the runtime chose for the
  \<^verbatim>\<open>range\<close> over the map. It leaves the cursor at the end of the data.
\<close>

declare Likelihood_loop.simps [simp del]

lemma Likelihood_loop_sem:
  assumes "nxt b \<noteq> 0" "nxt b \<le> length (data b)" "ix_ok v n" "\<forall>r \<in> set (data b). n \<le> length r"
    and "i < n"
  shows "Likelihood_loop v i m t b =
     Inr ((foldl map_incr m (map (\<lambda>r. r ! i) (view_rows v (drop (nxt b) (data b)))),
           t + real (length (view_rows v (drop (nxt b) (data b))))),
          b\<lparr>nxt := length (data b)\<rparr>)"
  using assms
proof (induction v i m t b rule: Likelihood_loop.induct)
  case (1 view i m t b)
  from Next_sem[OF "1.prems"(1-4)] show ?case
  proof (elim disjE exE conjE)
    fix b' assume nx: "Next view b = Inr (None, b')" and d: "data b' = data b"
      and n: "nxt b' = length (data b)" and vr: "view_rows view (drop (nxt b) (data b)) = []"
    have "b' = b\<lparr>nxt := length (data b)\<rparr>" using d n by (intro baseView_eqI) simp_all
    with nx vr show ?thesis by (simp add: Likelihood_loop.simps[of view i m t b])
  next
    fix r b' assume nx: "Next view b = Inr (Some r, b')" and d: "data b' = data b"
      and lt: "nxt b < nxt b'" and le: "nxt b' \<le> length (data b)"
      and vr: "view_rows view (drop (nxt b) (data b)) = r # view_rows view (drop (nxt b') (data b))"
    have "r \<in> set (view_rows view (drop (nxt b) (data b)))" using vr by simp
    then have "r \<in> set (data b)"
      using view_rows_subset[of view "drop (nxt b) (data b)"] set_drop_subset[of "nxt b" "data b"]
      by auto
    with "1.prems"(4,5) have ir: "i < length r" by force
    have ne: "nxt b' \<noteq> 0" using lt by simp
    have le': "nxt b' \<le> length (data b')" using le d by simp
    have all': "\<forall>r \<in> set (data b'). n \<le> length r" using "1.prems"(4) d by simp
    have eq: "b'\<lparr>nxt := length (data b')\<rparr> = b\<lparr>nxt := length (data b)\<rparr>"
      using d by (intro baseView_eqI) simp_all
    have "Likelihood_loop view i m t b =
        Likelihood_loop view i (map_incr m (r ! i)) (t + 1) b'"
      using nx ir by (simp add: Likelihood_loop.simps[of view i m t b])
    also have "\<dots> = Inr ((foldl map_incr (map_incr m (r ! i))
            (map (\<lambda>r. r ! i) (view_rows view (drop (nxt b') (data b')))),
           t + 1 + real (length (view_rows view (drop (nxt b') (data b'))))),
          b'\<lparr>nxt := length (data b')\<rparr>)"
      by (rule "1.IH"[OF nx refl refl ir ne le' "1.prems"(3) all' "1.prems"(5)])
    finally show ?thesis using vr d eq by simp
  qed
qed

lemma wf_view_data: "wf_view v b \<Longrightarrow> data b \<noteq> []"
  by (simp add: wf_view_def)

lemma wf_view_ix: "wf_view v b \<Longrightarrow> ix_ok v (length (hd (data b)))"
  by (simp add: wf_view_def)

lemma wf_view_rows: "wf_view v b \<Longrightarrow> \<forall>r \<in> set (data b). length (hd (data b)) \<le> length r"
proof
  fix r assume "wf_view v b" "r \<in> set (data b)"
  then have "length r = length (hd (data b))" unfolding wf_view_def list_all_iff by blast
  then show "length (hd (data b)) \<le> length r" by simp
qed

lemma wf_view_Columns:
  "wf_view v b \<Longrightarrow> \<exists>cols. Columns v b = Inr cols \<and> length cols = length (hd (data b))"
proof -
  have "data b \<noteq> [] \<Longrightarrow> ix_ok v (length (hd (data b))) \<Longrightarrow>
      \<exists>cols. Columns v b = Inr cols \<and> length cols = length (hd (data b))"
    by (induction v) (auto split: list.splits)
  then show "wf_view v b \<Longrightarrow> \<exists>cols. Columns v b = Inr cols \<and> length cols = length (hd (data b))"
    by (simp add: wf_view_def)
qed

lemma find_str_less: "find_str cols x = Inr i \<Longrightarrow> i < length cols \<and> cols ! i = x"
  by (induction cols arbitrary: i) (auto split: if_splits sum.splits)

lemma find_str_mem: "x \<in> set cols \<Longrightarrow> \<exists>i. find_str cols x = Inr i"
  by (induction cols) auto

lemma find_str_Inl: "find_str cols x = Inl e \<Longrightarrow> e = NotInSlice x \<and> x \<notin> set cols"
  by (induction cols) (auto split: if_splits sum.splits)

definition tally :: "string list \<Rightarrow> (string \<times> real) list" where
  "tally vs = foldl map_incr [] vs"

definition distribution :: "(string \<Rightarrow> nat) \<Rightarrow> string list \<Rightarrow> Distinct list" where
  "distribution rank vs =
     sort_Slice (map (\<lambda>kv. Distinct (fst kv) (snd kv / real (length vs))) (map_range rank (tally vs)))"

lemma Likelihood_sem:
  assumes wf: "wf_view view b" and c: "Columns view b = Inr cols" and f: "find_str cols column = Inr i"
  shows "Likelihood rnd view column (b, k) =
     Inr (distribution (rnd k) (map (\<lambda>r. r ! i) (rows_of view b)),
          (b\<lparr>nxt := length (data b)\<rparr>, Suc k))"
proof -
  let ?n = "length (hd (data b))"
  let ?b1 = "b\<lparr>nxt := 1\<rparr>"
  note ne = wf_view_data[OF wf] and ok = wf_view_ix[OF wf] and all = wf_view_rows[OF wf]
  from wf_view_Columns[OF wf] c have "length cols = ?n" by auto
  with find_str_less[OF f] have i: "i < ?n" by simp
  have p1: "nxt ?b1 \<noteq> 0" by simp
  have p2: "nxt ?b1 \<le> length (data ?b1)" using ne by (cases "data b") simp_all
  have p3: "\<forall>r \<in> set (data ?b1). ?n \<le> length r" using all by simp
  have dr: "drop (nxt ?b1) (data ?b1) = tl (data b)" by (simp add: drop_Suc)
  have eq: "?b1\<lparr>nxt := length (data ?b1)\<rparr> = b\<lparr>nxt := length (data b)\<rparr>" by simp
  have loop: "Likelihood_loop view i [] 0 (First view b) =
      Inr ((tally (map (\<lambda>r. r ! i) (rows_of view b)), real (length (rows_of view b))),
           b\<lparr>nxt := length (data b)\<rparr>)"
    using Likelihood_loop_sem[OF p1 p2 ok p3 i, of "[]" 0] unfolding dr eq First_eq
    by (simp add: tally_def rows_of_def)
  show ?thesis
    by (simp add: Likelihood_def c f loop distribution_def)
qed

lemma map_incr_sum: "sum_list (map snd (map_incr m v)) = sum_list (map snd m) + 1"
  by (induction m v rule: map_incr.induct) auto

lemma foldl_map_incr_sum:
  "sum_list (map snd (foldl map_incr m vs)) = sum_list (map snd m) + real (length vs)"
  by (induction vs arbitrary: m) (auto simp: map_incr_sum)

lemma tally_sum: "sum_list (map snd (tally vs)) = real (length vs)"
  by (simp add: tally_def foldl_map_incr_sum)

lemma sum_list_mset_cong: "mset xs = mset ys \<Longrightarrow> sum_list (map g xs) = (sum_list (map g ys) :: real)"
proof -
  assume "mset xs = mset ys"
  then have "mset (map g xs) = mset (map g ys)" by simp
  then have "sum_mset (mset (map g xs)) = sum_mset (mset (map g ys))" by simp
  then show ?thesis by (simp only: sum_mset_sum_list)
qed

lemma sum_list_divide: "sum_list (map (\<lambda>kv. snd kv / n) xs) = sum_list (map snd xs) / (n::real)"
  by (induction xs) (auto simp: add_divide_distrib)

lemma mset_distribution:
  "mset (distribution rank vs) =
     image_mset (\<lambda>kv. Distinct (fst kv) (snd kv / real (length vs))) (mset (tally vs))"
  by (simp add: distribution_def sort_Slice_def map_range_def)

lemma distribution_sum:
  assumes "vs \<noteq> []"
  shows "sum_list (map Probability (distribution rank vs)) = 1"
proof -
  let ?mk = "\<lambda>kv. Distinct (fst kv) (snd kv / real (length vs))"
  have "mset (distribution rank vs) = mset (map ?mk (tally vs))"
    by (simp add: mset_distribution)
  then have "sum_list (map Probability (distribution rank vs)) =
      sum_list (map Probability (map ?mk (tally vs)))"
    by (rule sum_list_mset_cong)
  also have "\<dots> = sum_list (map (\<lambda>kv. snd kv / real (length vs)) (tally vs))"
    by (simp add: comp_def)
  also have "\<dots> = real (length vs) / real (length vs)"
    by (simp only: sum_list_divide tally_sum)
  also have "\<dots> = 1" using assms by simp
  finally show ?thesis .
qed

lemma distribution_sorted:
  "sorted_wrt (\<lambda>x y. Probability x \<ge> Probability y) (distribution rank vs)"
proof -
  have "sorted (map (\<lambda>d. - Probability d) (distribution rank vs))"
    unfolding distribution_def sort_Slice_def by (rule sorted_sort_key)
  then show ?thesis by (simp add: sorted_map)
qed

lemma distribution_probabilities:
  "map Probability (distribution rank vs) = map Probability (distribution rank' vs)"
proof -
  let ?f = "\<lambda>d. - Probability d"
  have m: "mset (map ?f (distribution rank vs)) = mset (map ?f (distribution rank' vs))"
    by (simp add: mset_distribution)
  have s: "sorted (map ?f (distribution rank vs))" "sorted (map ?f (distribution rank' vs))"
    unfolding distribution_def sort_Slice_def by (rule sorted_sort_key)+
  have "sort (map ?f (distribution rank' vs)) = map ?f (distribution rank vs)"
    using m s(1) by (rule properties_for_sort)
  moreover have "sort (map ?f (distribution rank' vs)) = map ?f (distribution rank' vs)"
    using s(2) by (rule sorted_sort_id)
  ultimately have "map ?f (distribution rank vs) = map ?f (distribution rank' vs)" by simp
  then have "map uminus (map Probability (distribution rank vs)) =
      map uminus (map Probability (distribution rank' vs))" by (simp add: comp_def)
  then show ?thesis by (simp add: inj_map_eq_map[of uminus] inj_on_def del: map_map)
qed

lemma distribution_unique:
  assumes "distinct (map Probability (distribution rank vs))"
  shows "distribution rank vs = distribution rank' vs"
proof -
  have inj: "inj_on Probability (set (distribution rank vs))"
    using assms by (simp add: distinct_map)
  have "set (distribution rank' vs) = set (distribution rank vs)"
    using mset_distribution[of rank vs] mset_distribution[of rank' vs] by (metis set_mset_mset)
  with inj have "inj_on Probability (set (distribution rank vs) \<union> set (distribution rank' vs))"
    by simp
  then show ?thesis
    using distribution_probabilities[of rank vs rank'] by (simp add: inj_on_map_eq_map)
qed

lemma First_Next_rows:
  assumes wf: "wf_view view b" and nx: "Next view (First view b) = Inr (Some r, b')"
  shows "rows_of view b \<noteq> []"
proof -
  let ?n = "length (hd (data b))"
  let ?b1 = "b\<lparr>nxt := 1\<rparr>"
  have p1: "nxt ?b1 \<noteq> 0" by simp
  have p2: "nxt ?b1 \<le> length (data ?b1)" using wf_view_data[OF wf] by (cases "data b") simp_all
  have p3: "\<forall>r \<in> set (data ?b1). ?n \<le> length r" using wf_view_rows[OF wf] by simp
  have dr: "drop (nxt ?b1) (data ?b1) = tl (data b)" by (simp add: drop_Suc)
  from Next_sem[OF p1 p2 wf_view_ix[OF wf] p3] nx[unfolded First_eq]
  have "\<exists>rest. view_rows view (drop (nxt ?b1) (data ?b1)) = r # rest"
    by (elim disjE exE conjE) simp_all
  then show ?thesis unfolding dr rows_of_def by auto
qed

text \<open>
  C5. On a well-formed view that yields at least one row after \<open>First\<close>, and for a
  column among the columns of the view, \<open>Likelihood\<close> returns a list whose probabilities
  sum to 1 (in exact arithmetic) and do not increase along the list, whatever order the
  runtime chose for the map.
\<close>

theorem Likelihood_sums_to_one:
  assumes "wf_view view b"
    and "Columns view b = Inr cols"
    and "column \<in> set cols"
    and "Next view (First view b) = Inr (Some r, b')"
  shows "\<exists>ds. Likelihood rnd view column (b, k) = Inr (ds, (b\<lparr>nxt := length (data b)\<rparr>, Suc k))
     \<and> sum_list (map Probability ds) = 1
     \<and> sorted_wrt (\<lambda>x y. Probability x \<ge> Probability y) ds"
proof -
  from find_str_mem[OF assms(3)] obtain i where i: "find_str cols column = Inr i" ..
  let ?vs = "map (\<lambda>r. r ! i) (rows_of view b)"
  have "?vs \<noteq> []" using First_Next_rows[OF assms(1,4)] by simp
  then have "sum_list (map Probability (distribution (rnd k) ?vs)) = 1"
    by (rule distribution_sum)
  moreover have "sorted_wrt (\<lambda>x y. Probability x \<ge> Probability y) (distribution (rnd k) ?vs)"
    by (rule distribution_sorted)
  moreover note Likelihood_sem[OF assms(1,2) i, of rnd k]
  ultimately show ?thesis by (intro exI conjI)
qed

theorem Likelihood_sums_to_one_witness:
  "Likelihood (\<lambda>_ _. 0) BaseView ''a''
      (\<lparr>data = [[''a'', ''play''], [''x'', ''yes''], [''y'', ''no''], [''x'', ''no'']], nxt = 1\<rparr>, 0)
     = Inr ([Distinct ''x'' (2 / 3), Distinct ''y'' (1 / 3)],
            (\<lparr>data = [[''a'', ''play''], [''x'', ''yes''], [''y'', ''no''], [''x'', ''no'']], nxt = 4\<rparr>, 1))
   \<and> sum_list (map Probability [Distinct ''x'' (2 / 3), Distinct ''y'' (1 / 3)]) = 1
   \<and> sorted_wrt (\<lambda>x y. Probability x \<ge> Probability y) [Distinct ''x'' (2 / 3), Distinct ''y'' (1 / 3)]"
proof -
  let ?B = "\<lparr>data = [[''a'', ''play''], [''x'', ''yes''], [''y'', ''no''], [''x'', ''no'']], nxt = 1\<rparr>"
  have wf: "wf_view BaseView ?B" by (simp add: wf_view_def)
  have cols: "Columns BaseView ?B = Inr [''a'', ''play'']" by simp
  have mem: "''a'' \<in> set [''a'', ''play'']" by simp
  have nx: "Next BaseView (First BaseView ?B) = Inr (Some [''x'', ''yes''], ?B\<lparr>nxt := 2\<rparr>)"
    by (simp add: baseView_Next_def)
  have ev: "Likelihood (\<lambda>_ _. 0) BaseView ''a'' (?B, 0)
     = Inr ([Distinct ''x'' (2 / 3), Distinct ''y'' (1 / 3)], (?B\<lparr>nxt := 4\<rparr>, 1))"
    by (simp add: Likelihood_def Likelihood_loop.simps baseView_Next_def map_range_def sort_Slice_def)
  from Likelihood_sums_to_one[OF wf cols mem nx, of "\<lambda>_ _. 0" 0] ev
  show ?thesis by auto
qed

text \<open>
  C6 as it is worded fails. Two rows give two values of probability 1/2 each. The runtime
  may rank the keys of the map one way in its first \<^verbatim>\<open>range\<close> and the other way in its
  second, and then two calls of \<open>Likelihood\<close> on the same view and column, the second in
  the state that the first left, return the two entries in different orders.
\<close>

theorem Likelihood_order_counterexample:
  "Likelihood (\<lambda>k s. if k = 0 \<and> s = ''x'' then 1 else 0) BaseView ''a''
      (\<lparr>data = [[''a'', ''play''], [''x'', ''yes''], [''y'', ''no'']], nxt = 1\<rparr>, 0)
     = Inr ([Distinct ''y'' (1 / 2), Distinct ''x'' (1 / 2)],
            (\<lparr>data = [[''a'', ''play''], [''x'', ''yes''], [''y'', ''no'']], nxt = 3\<rparr>, 1))
   \<and> Likelihood (\<lambda>k s. if k = 0 \<and> s = ''x'' then 1 else 0) BaseView ''a''
      (\<lparr>data = [[''a'', ''play''], [''x'', ''yes''], [''y'', ''no'']], nxt = 3\<rparr>, 1)
     = Inr ([Distinct ''x'' (1 / 2), Distinct ''y'' (1 / 2)],
            (\<lparr>data = [[''a'', ''play''], [''x'', ''yes''], [''y'', ''no'']], nxt = 3\<rparr>, 2))"
  by (simp add: Likelihood_def Likelihood_loop.simps baseView_Next_def map_range_def sort_Slice_def)

text \<open>
  C6, amended. Two calls of \<open>Likelihood\<close> on the same view and column, in whatever states
  of the cursor and of the runtime, return the same entries (the same values with the
  same probabilities) and the same sequence of probabilities; they return the same list
  when no two values have the same probability. The order among values of equal
  probability is the order of the \<^verbatim>\<open>range\<close> over the map and is not determined.
\<close>

theorem Likelihood_same_entries:
  assumes "wf_view view b"
    and "Columns view b = Inr cols"
    and "column \<in> set cols"
    and "data b' = data b"
  shows "\<exists>ds ds'.
       Likelihood rnd view column (b, k) = Inr (ds, (b\<lparr>nxt := length (data b)\<rparr>, Suc k))
     \<and> Likelihood rnd' view column (b', k') = Inr (ds', (b\<lparr>nxt := length (data b)\<rparr>, Suc k'))
     \<and> mset ds = mset ds'
     \<and> map Probability ds = map Probability ds'
     \<and> (distinct (map Probability ds) \<longrightarrow> ds = ds')"
proof -
  from find_str_mem[OF assms(3)] obtain i where i: "find_str cols column = Inr i" ..
  let ?vs = "map (\<lambda>r. r ! i) (rows_of view b)"
  have wf': "wf_view view b'" using assms(1,4) by (simp add: wf_view_def)
  have cols': "Columns view b' = Inr cols" using Columns_data[OF assms(4)] assms(2) by simp
  have rows': "rows_of view b' = rows_of view b" using assms(4) by (simp add: rows_of_def)
  have st: "b'\<lparr>nxt := length (data b')\<rparr> = b\<lparr>nxt := length (data b)\<rparr>"
    using assms(4) by (intro baseView_eqI) simp_all
  have 1: "Likelihood rnd view column (b, k) =
      Inr (distribution (rnd k) ?vs, (b\<lparr>nxt := length (data b)\<rparr>, Suc k))"
    by (rule Likelihood_sem[OF assms(1,2) i])
  have 2: "Likelihood rnd' view column (b', k') =
      Inr (distribution (rnd' k') ?vs, (b\<lparr>nxt := length (data b)\<rparr>, Suc k'))"
    using Likelihood_sem[OF wf' cols' i, of rnd' k'] unfolding rows' st .
  have 3: "mset (distribution (rnd k) ?vs) = mset (distribution (rnd' k') ?vs)"
    by (simp add: mset_distribution)
  have 4: "map Probability (distribution (rnd k) ?vs) = map Probability (distribution (rnd' k') ?vs)"
    by (rule distribution_probabilities)
  have 5: "distinct (map Probability (distribution (rnd k) ?vs)) \<longrightarrow>
      distribution (rnd k) ?vs = distribution (rnd' k') ?vs"
    using distribution_unique by blast
  from 1 2 3 4 5 show ?thesis by (intro exI conjI)
qed

theorem Likelihood_same_entries_witness:
  "Likelihood (\<lambda>k s. if k = 0 \<and> s = ''x'' then 1 else 0) BaseView ''a''
      (\<lparr>data = [[''a'', ''play''], [''x'', ''yes''], [''y'', ''no''], [''x'', ''no'']], nxt = 1\<rparr>, 0)
     = Inr ([Distinct ''x'' (2 / 3), Distinct ''y'' (1 / 3)],
            (\<lparr>data = [[''a'', ''play''], [''x'', ''yes''], [''y'', ''no''], [''x'', ''no'']], nxt = 4\<rparr>, 1))
   \<and> Likelihood (\<lambda>_ _. 0) BaseView ''a''
      (\<lparr>data = [[''a'', ''play''], [''x'', ''yes''], [''y'', ''no''], [''x'', ''no'']], nxt = 4\<rparr>, 7)
     = Inr ([Distinct ''x'' (2 / 3), Distinct ''y'' (1 / 3)],
            (\<lparr>data = [[''a'', ''play''], [''x'', ''yes''], [''y'', ''no''], [''x'', ''no'']], nxt = 4\<rparr>, 8))
   \<and> distinct (map Probability [Distinct ''x'' (2 / 3), Distinct ''y'' (1 / 3)])"
proof -
  let ?D = "[[''a'', ''play''], [''x'', ''yes''], [''y'', ''no''], [''x'', ''no'']]"
  let ?B = "\<lparr>data = ?D, nxt = 1\<rparr>"
  let ?B' = "\<lparr>data = ?D, nxt = 4\<rparr>"
  let ?rnd = "\<lambda>k s. if k = (0::nat) \<and> s = ''x'' then 1 else (0::nat)"
  have wf: "wf_view BaseView ?B" by (simp add: wf_view_def)
  have cols: "Columns BaseView ?B = Inr [''a'', ''play'']" by simp
  have mem: "''a'' \<in> set [''a'', ''play'']" by simp
  have d: "data ?B' = data ?B" by simp
  have ev: "Likelihood ?rnd BaseView ''a'' (?B, 0)
     = Inr ([Distinct ''x'' (2 / 3), Distinct ''y'' (1 / 3)], (?B', 1))"
    by (simp add: Likelihood_def Likelihood_loop.simps baseView_Next_def map_range_def sort_Slice_def)
  from Likelihood_same_entries[OF wf cols mem d, of ?rnd 0 "\<lambda>_ _. 0" 7]
  obtain ds ds' where a: "Likelihood ?rnd BaseView ''a'' (?B, 0) = Inr (ds, (?B\<lparr>nxt := length (data ?B)\<rparr>, Suc 0))"
    and b: "Likelihood (\<lambda>_ _. 0) BaseView ''a'' (?B', 7) = Inr (ds', (?B\<lparr>nxt := length (data ?B)\<rparr>, Suc 7))"
    and c: "distinct (map Probability ds) \<longrightarrow> ds = ds'" by blast
  from a ev have ds: "ds = [Distinct ''x'' (2 / 3), Distinct ''y'' (1 / 3)]" by simp
  have dist: "distinct (map Probability [Distinct ''x'' (2 / 3), Distinct ''y'' (1 / 3)])" by simp
  with c ds have "ds' = [Distinct ''x'' (2 / 3), Distinct ''y'' (1 / 3)]" by simp
  with b have "Likelihood (\<lambda>_ _. 0) BaseView ''a'' (?B', 7)
     = Inr ([Distinct ''x'' (2 / 3), Distinct ''y'' (1 / 3)], (?B', 8))" by simp
  with ev dist show ?thesis by (intro conjI)
qed

section \<open>Entropies\<close>

text \<open>
  The values of \<open>TotalEntropy\<close> and \<open>AverageEntropy\<close> on a well-formed view, as functions
  of the rows of the view: \<open>entropy_of\<close> is the entropy of a list of values, \<open>average_of\<close>
  the average over the values of column \<open>i\<close> of the entropy of column \<open>j\<close>. In exact
  arithmetic neither depends on the order of the \<^verbatim>\<open>range\<close> over the map.
\<close>

definition entropy_of :: "string list \<Rightarrow> real" where
  "entropy_of vs = sum_list (map (\<lambda>kv. Entropy (snd kv / real (length vs))) (tally vs))"

definition column_of :: "nat \<Rightarrow> string list list \<Rightarrow> string list" where
  "column_of i rows = map (\<lambda>r. r ! i) rows"

definition average_of :: "nat \<Rightarrow> nat \<Rightarrow> string list list \<Rightarrow> real" where
  "average_of i j rows =
     sum_list (map (\<lambda>kv. snd kv / real (length rows)
                      * entropy_of (column_of j (filter (\<lambda>r. r ! i = fst kv) rows)))
                (tally (column_of i rows)))"

definition at_end :: "baseView \<Rightarrow> baseView" where
  "at_end b = b\<lparr>nxt := length (data b)\<rparr>"

lemma at_end_simps [simp]:
  "data (at_end b) = data b" "nxt (at_end b) = length (data b)" "at_end (at_end b) = at_end b"
  by (simp_all add: at_end_def)









section \<open>Dropping a column\<close>








section \<open>The column scan of Learn\<close>

text \<open>
  \<open>gain_of\<close> is the information gain of a column as a function of the rows, and
  \<open>scan_columns\<close> the first loop of \<open>Learn\<close> over these gains: on a well-formed view
  \<open>Learn_columns\<close> computes \<open>scan_columns\<close>.
\<close>

definition index_of :: "string list \<Rightarrow> string \<Rightarrow> nat" where
  "index_of cols x = (case find_str cols x of Inl _ \<Rightarrow> 0 | Inr i \<Rightarrow> i)"

definition gain_of :: "string list \<Rightarrow> string \<Rightarrow> string list list \<Rightarrow> string \<Rightarrow> real" where
  "gain_of cols class rows v =
     entropy_of (column_of (index_of cols class) rows)
       - average_of (index_of cols v) (index_of cols class) rows"





section \<open>Learning from no rows\<close>


lemma tally_Nil [simp]: "tally [] = []"
  by (simp add: tally_def)

lemma gain_of_Nil [simp]: "gain_of cols class [] v = 0"
  by (simp add: gain_of_def entropy_of_def average_of_def column_of_def)

lemma distribution_Nil [simp]: "distribution rank [] = []"
  by (simp add: distribution_def map_range_def sort_Slice_def)






section \<open>Counting\<close>

text \<open>
  The tally of a list of values has one entry for each value of the list, with the number
  of its occurrences; so a sum over the tally is a sum over the values of the list.
\<close>

lemma map_incr_keys: "fst ` set (map_incr m v) = insert v (fst ` set m)"
  by (induction m v rule: map_incr.induct) auto

lemma map_incr_distinct: "distinct (map fst m) \<Longrightarrow> distinct (map fst (map_incr m v))"
proof (induction m v rule: map_incr.induct)
  case (1 v)
  show ?case by simp
next
  case (2 k n m v)
  show ?case
  proof (cases "k = v")
    case True
    with 2 show ?thesis by simp
  next
    case False
    have "fst ` set (map_incr m v) = insert v (fst ` set m)" by (rule map_incr_keys)
    with 2 False show ?thesis by auto
  qed
qed

lemma map_incr_map_of:
  "map_of (map_incr m v) x =
     (if x = v then Some ((case map_of m v of None \<Rightarrow> 0 | Some n \<Rightarrow> n) + 1) else map_of m x)"
  by (induction m v rule: map_incr.induct) auto

lemma foldl_map_incr_keys: "fst ` set (foldl map_incr m vs) = fst ` set m \<union> set vs"
  by (induction vs arbitrary: m) (auto simp: map_incr_keys)

lemma foldl_map_incr_distinct:
  "distinct (map fst m) \<Longrightarrow> distinct (map fst (foldl map_incr m vs))"
  by (induction vs arbitrary: m) (auto simp: map_incr_distinct)

lemma foldl_map_incr_map_of:
  "map_of (foldl map_incr m vs) x =
     (if x \<in> set vs
      then Some ((case map_of m x of None \<Rightarrow> 0 | Some n \<Rightarrow> n) + real (count_list vs x))
      else map_of m x)"
proof (induction vs arbitrary: m)
  case Nil
  show ?case by simp
next
  case (Cons v vs)
  show ?case by (simp add: Cons.IH map_incr_map_of)
qed

lemma tally_keys: "fst ` set (tally vs) = set vs"
  by (simp add: tally_def foldl_map_incr_keys)

lemma tally_distinct: "distinct (map fst (tally vs))"
  by (simp add: tally_def foldl_map_incr_distinct)

lemma tally_map_of: "x \<in> set vs \<Longrightarrow> map_of (tally vs) x = Some (real (count_list vs x))"
  by (simp add: tally_def foldl_map_incr_map_of)

lemma sum_list_keys:
  "distinct (map fst m) \<Longrightarrow>
     sum_list (map g m) = (\<Sum>x \<in> fst ` set m. (g (x, the (map_of m x)) :: real))"
proof (induction m)
  case Nil
  show ?case by simp
next
  case (Cons kv m)
  obtain k n where kv: "kv = (k, n)" by (cases kv)
  from Cons.prems kv have nk: "k \<notin> fst ` set m" and d: "distinct (map fst m)" by auto
  have "(\<Sum>x \<in> fst ` set m. g (x, the (map_of (kv # m) x))) =
      (\<Sum>x \<in> fst ` set m. g (x, the (map_of m x)))"
    using nk kv by (intro sum.cong) auto
  with Cons.IH[OF d] nk kv show ?case by simp
qed

lemma sum_list_tally:
  "sum_list (map g (tally vs)) = (\<Sum>x \<in> set vs. (g (x, real (count_list vs x)) :: real))"
proof -
  have "sum_list (map g (tally vs)) = (\<Sum>x \<in> fst ` set (tally vs). g (x, the (map_of (tally vs) x)))"
    using tally_distinct by (rule sum_list_keys)
  also have "\<dots> = (\<Sum>x \<in> set vs. g (x, real (count_list vs x)))"
    unfolding tally_keys by (intro sum.cong) (simp_all add: tally_map_of)
  finally show ?thesis .
qed

lemma sum_list_count:
  "sum_list (map f xs) = (\<Sum>x \<in> set xs. real (count_list xs x) * (f x :: real))"
proof (induction xs)
  case Nil
  show ?case by simp
next
  case (Cons a xs)
  have "(\<Sum>x \<in> set (a # xs). real (count_list (a # xs) x) * f x) =
      (\<Sum>x \<in> insert a (set xs). real (count_list xs x) * f x + (if x = a then f a else 0))"
    by (intro sum.cong) (auto simp: algebra_simps)
  also have "\<dots> = (\<Sum>x \<in> insert a (set xs). real (count_list xs x) * f x)
      + (\<Sum>x \<in> insert a (set xs). if x = a then f a else 0)"
    by (rule sum.distrib)
  also have "(\<Sum>x \<in> insert a (set xs). if x = a then f a else 0) = f a"
    by (simp add: sum.delta')
  also have "(\<Sum>x \<in> insert a (set xs). real (count_list xs x) * f x) =
      (\<Sum>x \<in> set xs. real (count_list xs x) * f x)"
  proof (cases "a \<in> set xs")
    case True
    then show ?thesis by (simp add: insert_absorb)
  next
    case False
    then have "count_list xs a = 0" by (simp add: count_list_0_iff)
    with False show ?thesis by simp
  qed
  finally show ?case using Cons.IH by simp
qed

section \<open>Entropy as a sum over the rows\<close>

text \<open>
  \<open>surprise vs x\<close> is \<open>- log\<^sub>2\<close> of the relative frequency of \<open>x\<close> in \<open>vs\<close>. The entropy of a
  list of values is the mean surprise of its elements, and the average entropy of a column
  over the values of another is the mean surprise of the rows within their partitions.
\<close>

definition surprise :: "string list \<Rightarrow> string \<Rightarrow> real" where
  "surprise vs x = - log 2 (real (count_list vs x) / real (length vs))"

lemma Entropy_alt: "0 < p \<Longrightarrow> Entropy p = - p * log 2 p"
  by (simp add: Entropy_def)

lemma count_list_pos: "x \<in> set vs \<Longrightarrow> 0 < count_list vs x"
  using count_list_0_iff[of vs x] by auto

lemma sum_list_divide_right:
  "sum_list (map (\<lambda>x. g x / c) xs) = sum_list (map g xs) / (c::real)"
  by (induction xs) (simp_all add: add_divide_distrib)

lemma entropy_of_rows:
  "real (length vs) * entropy_of vs = sum_list (map (surprise vs) vs)"
proof (cases "vs = []")
  case True
  then show ?thesis by (simp add: entropy_of_def)
next
  case False
  let ?n = "real (length vs)"
  have n: "0 < ?n" using False by simp
  have "entropy_of vs = (\<Sum>x \<in> set vs. Entropy (real (count_list vs x) / ?n))"
    unfolding entropy_of_def by (simp add: sum_list_tally)
  also have "\<dots> = (\<Sum>x \<in> set vs. real (count_list vs x) * (surprise vs x / ?n))"
  proof (intro sum.cong refl)
    fix x assume "x \<in> set vs"
    then have "0 < real (count_list vs x) / ?n" using count_list_pos[of x vs] n by simp
    then show "Entropy (real (count_list vs x) / ?n) = real (count_list vs x) * (surprise vs x / ?n)"
      by (simp add: Entropy_alt surprise_def)
  qed
  also have "\<dots> = sum_list (map (\<lambda>x. surprise vs x / ?n) vs)"
    by (rule sum_list_count[symmetric])
  also have "\<dots> = sum_list (map (surprise vs) vs) / ?n"
    by (rule sum_list_divide_right)
  finally show ?thesis using n by simp
qed

lemma sum_list_partition:
  assumes "finite A" and "key ` set xs \<subseteq> A"
  shows "(\<Sum>a \<in> A. sum_list (map f (filter (\<lambda>x. key x = a) xs))) = (sum_list (map f xs) :: real)"
  using assms(2)
proof (induction xs)
  case Nil
  show ?case by simp
next
  case (Cons x xs)
  then have sub: "key ` set xs \<subseteq> A" and mem: "key x \<in> A" by auto
  have "(\<Sum>a \<in> A. sum_list (map f (filter (\<lambda>y. key y = a) (x # xs)))) =
      (\<Sum>a \<in> A. (if key x = a then f x else 0) + sum_list (map f (filter (\<lambda>y. key y = a) xs)))"
    by (intro sum.cong) auto
  also have "\<dots> = (\<Sum>a \<in> A. if key x = a then f x else 0)
      + (\<Sum>a \<in> A. sum_list (map f (filter (\<lambda>y. key y = a) xs)))"
    by (rule sum.distrib)
  also have "(\<Sum>a \<in> A. if key x = a then f x else 0) = f x"
    using assms(1) mem by (simp add: sum.delta)
  finally show ?case using Cons.IH[OF sub] by simp
qed

lemma length_filter_column:
  "length (filter (\<lambda>r. r ! i = a) rows) = count_list (column_of i rows) a"
  by (induction rows) (auto simp: column_of_def)

lemma average_of_rows:
  "real (length rows) * average_of i j rows =
     sum_list (map (\<lambda>r. surprise (column_of j (filter (\<lambda>r'. r' ! i = r ! i) rows)) (r ! j)) rows)"
proof (cases "rows = []")
  case True
  then show ?thesis by (simp add: average_of_def column_of_def)
next
  case False
  let ?n = "real (length rows)"
  let ?F = "\<lambda>r. surprise (column_of j (filter (\<lambda>r'. r' ! i = r ! i) rows)) (r ! j)"
  let ?part = "\<lambda>a. filter (\<lambda>r. r ! i = a) rows"
  have n: "0 < ?n" using False by simp
  have "average_of i j rows =
      (\<Sum>a \<in> set (column_of i rows). real (count_list (column_of i rows) a) / ?n
          * entropy_of (column_of j (?part a)))"
    unfolding average_of_def by (simp add: sum_list_tally)
  also have "\<dots> = (\<Sum>a \<in> set (column_of i rows). sum_list (map ?F (?part a)) / ?n)"
  proof (intro sum.cong refl)
    fix a assume "a \<in> set (column_of i rows)"
    have len: "real (count_list (column_of i rows) a) = real (length (column_of j (?part a)))"
      unfolding length_filter_column[symmetric] by (simp add: column_of_def)
    have "real (length (column_of j (?part a))) * entropy_of (column_of j (?part a)) =
        sum_list (map (surprise (column_of j (?part a))) (column_of j (?part a)))"
      by (rule entropy_of_rows)
    also have "\<dots> = sum_list (map (\<lambda>r. surprise (column_of j (?part a)) (r ! j)) (?part a))"
      by (simp add: column_of_def comp_def)
    also have "\<dots> = sum_list (map ?F (?part a))"
      by (intro arg_cong[where f = sum_list] map_cong refl) simp
    finally show "real (count_list (column_of i rows) a) / ?n * entropy_of (column_of j (?part a)) =
        sum_list (map ?F (?part a)) / ?n"
      unfolding len by simp
  qed
  also have "\<dots> = (\<Sum>a \<in> set (column_of i rows). sum_list (map ?F (?part a))) / ?n"
    by (simp add: sum_divide_distrib)
  also have "(\<Sum>a \<in> set (column_of i rows). sum_list (map ?F (?part a))) = sum_list (map ?F rows)"
    by (rule sum_list_partition) (simp_all add: column_of_def)
  finally show ?thesis using n by simp
qed

section \<open>The information gain is not negative\<close>

text \<open>
  From \<open>ln x \<le> x - 1\<close>: the mean over the rows of the difference between the surprise of
  the class value and its surprise within the partition of the row is at least 0. So no
  gain falls to the initial maximum \<open>- 1\<close> of the column scan.
\<close>

lemma log2_diff_ge:
  assumes "0 < x" and "0 < y"
  shows "(1 - y / x) / ln 2 \<le> log 2 x - log 2 y"
proof -
  have "0 < y / x" using assms by simp
  then have "ln (y / x) \<le> y / x - 1" by (rule ln_le_minus_one)
  then have "ln y - ln x \<le> y / x - 1" using assms by (simp add: ln_div)
  then have "1 - y / x \<le> ln x - ln y" by simp
  moreover have "0 < ln (2::real)" by simp
  ultimately have "(1 - y / x) / ln 2 \<le> (ln x - ln y) / ln 2"
    by (simp add: divide_right_mono)
  then show ?thesis by (simp add: log_def diff_divide_distrib)
qed

lemma count_filter_pair:
  "count_list (column_of j (filter (\<lambda>r. r ! i = a) rows)) c =
     count_list (map (\<lambda>r. (r ! i, r ! j)) rows) (a, c)"
  by (induction rows) (auto simp: column_of_def)

lemma sum_count_column: "(\<Sum>x \<in> set vs. real (count_list vs x)) = real (length vs)"
proof -
  have "(\<Sum>x \<in> set vs. count_list vs x) = length vs"
    by (rule sum_count_set) simp_all
  then have "real (\<Sum>x \<in> set vs. count_list vs x) = real (length vs)" by simp
  then show ?thesis by simp
qed

lemma pair_weight_bound:
  "(\<Sum>p \<in> set (map (\<lambda>r. (r ! i, r ! j)) rows). real (count_list (column_of i rows) (fst p))
             * real (count_list (column_of j rows) (snd p)))
       \<le> real (length rows) * real (length rows)"
proof -
  let ?as = "column_of i rows" and ?cs = "column_of j rows"
  let ?ps = "map (\<lambda>r. (r ! i, r ! j)) rows"
  let ?w = "\<lambda>p. real (count_list ?as (fst p)) * real (count_list ?cs (snd p))"
  have sub: "set ?ps \<subseteq> set ?as \<times> set ?cs" by (auto simp: column_of_def)
  have "(\<Sum>p \<in> set ?ps. ?w p) \<le> (\<Sum>p \<in> set ?as \<times> set ?cs. ?w p)"
    by (rule sum_mono2) (use sub in auto)
  also have "\<dots> = (\<Sum>a \<in> set ?as. \<Sum>c \<in> set ?cs. real (count_list ?as a) * real (count_list ?cs c))"
    by (simp add: sum.cartesian_product split_beta)
  also have "\<dots> = (\<Sum>a \<in> set ?as. real (count_list ?as a)) * (\<Sum>c \<in> set ?cs. real (count_list ?cs c))"
    by (rule sum_product[symmetric])
  also have "\<dots> = real (length rows) * real (length rows)"
    by (simp only: sum_count_column) (simp add: column_of_def)
  finally show ?thesis .
qed

lemma sum_list_one_minus:
  "sum_list (map (\<lambda>x. (1 - g x) / c) xs) = (real (length xs) - sum_list (map g xs)) / (c::real)"
  by (induction xs) (simp_all add: add_divide_distrib diff_divide_distrib)

lemma sum_list_diff: "sum_list (map (\<lambda>x. f x - g x) xs) = sum_list (map f xs) - (sum_list (map g xs) :: real)"
  by (induction xs) simp_all

text \<open>The information gain is not negative: the average entropy is at most the entropy.\<close>

lemma average_le_entropy: "average_of i j rows \<le> entropy_of (column_of j rows)"
proof (cases "rows = []")
  case True
  then show ?thesis by (simp add: average_of_def entropy_of_def column_of_def tally_def)
next
  case False
  let ?n = "real (length rows)"
  let ?as = "column_of i rows" and ?cs = "column_of j rows"
  let ?ps = "map (\<lambda>r. (r ! i, r ! j)) rows"
  let ?S = "\<lambda>r. surprise ?cs (r ! j)"
  let ?F = "\<lambda>r. surprise (column_of j (filter (\<lambda>r'. r' ! i = r ! i) rows)) (r ! j)"
  let ?w = "\<lambda>p. real (count_list ?as (fst p)) * real (count_list ?cs (snd p))"
  let ?G = "\<lambda>p. ?w p / (?n * real (count_list ?ps p))"
  have n: "0 < ?n" using False by simp
  have step: "(1 - ?G (r ! i, r ! j)) / ln 2 \<le> ?S r - ?F r" if r: "r \<in> set rows" for r
  proof -
    have nc: "0 < real (count_list ?cs (r ! j))"
      using count_list_pos[of "r ! j" ?cs] r by (simp add: column_of_def)
    have na: "0 < real (count_list ?as (r ! i))"
      using count_list_pos[of "r ! i" ?as] r by (simp add: column_of_def)
    have nac: "0 < real (count_list ?ps (r ! i, r ! j))"
      using count_list_pos[of "(r ! i, r ! j)" ?ps] r by simp
    have S: "?S r = - log 2 (real (count_list ?cs (r ! j)) / ?n)"
      by (simp add: surprise_def column_of_def)
    have lenF: "length (column_of j (filter (\<lambda>r'. r' ! i = r ! i) rows)) = count_list ?as (r ! i)"
      using length_filter_column[of i "r ! i" rows] by (simp add: column_of_def)
    have F: "?F r = - log 2 (real (count_list ?ps (r ! i, r ! j)) / real (count_list ?as (r ! i)))"
      unfolding surprise_def count_filter_pair lenF by simp
    have x: "0 < real (count_list ?ps (r ! i, r ! j)) / real (count_list ?as (r ! i))"
      using nac na by simp
    have y: "0 < real (count_list ?cs (r ! j)) / ?n" using nc n by simp
    have A: "(1 - (real (count_list ?cs (r ! j)) / ?n)
               / (real (count_list ?ps (r ! i, r ! j)) / real (count_list ?as (r ! i)))) / ln 2
        \<le> log 2 (real (count_list ?ps (r ! i, r ! j)) / real (count_list ?as (r ! i)))
          - log 2 (real (count_list ?cs (r ! j)) / ?n)"
      using x y by (rule log2_diff_ge)
    have B: "(real (count_list ?cs (r ! j)) / ?n)
               / (real (count_list ?ps (r ! i, r ! j)) / real (count_list ?as (r ! i)))
        = ?G (r ! i, r ! j)"
      by (simp add: field_simps)
    have C: "?S r - ?F r = log 2 (real (count_list ?ps (r ! i, r ! j)) / real (count_list ?as (r ! i)))
          - log 2 (real (count_list ?cs (r ! j)) / ?n)"
      unfolding S F by simp
    show ?thesis using A unfolding B C .
  qed
  have "sum_list (map (\<lambda>r. (1 - ?G (r ! i, r ! j)) / ln 2) rows) \<le> sum_list (map (\<lambda>r. ?S r - ?F r) rows)"
    by (rule sum_list_mono) (rule step)
  also have "\<dots> = sum_list (map ?S rows) - sum_list (map ?F rows)"
    by (rule sum_list_diff)
  also have "sum_list (map ?S rows) = ?n * entropy_of ?cs"
    using entropy_of_rows[of ?cs] by (simp add: column_of_def comp_def)
  also have "sum_list (map ?F rows) = ?n * average_of i j rows"
    by (rule average_of_rows[symmetric])
  finally have le: "sum_list (map (\<lambda>r. (1 - ?G (r ! i, r ! j)) / ln 2) rows)
      \<le> ?n * entropy_of ?cs - ?n * average_of i j rows" .
  have "sum_list (map (\<lambda>r. ?G (r ! i, r ! j)) rows) = sum_list (map ?G ?ps)"
    by (simp add: comp_def)
  also have "\<dots> = (\<Sum>p \<in> set ?ps. real (count_list ?ps p) * ?G p)"
    by (rule sum_list_count)
  also have "\<dots> = (\<Sum>p \<in> set ?ps. ?w p / ?n)"
  proof (intro sum.cong refl)
    fix p assume "p \<in> set ?ps"
    then have "0 < real (count_list ?ps p)" using count_list_pos[of p ?ps] by simp
    then show "real (count_list ?ps p) * ?G p = ?w p / ?n" by (simp add: field_simps)
  qed
  also have "\<dots> = (\<Sum>p \<in> set ?ps. ?w p) / ?n"
    by (simp add: sum_divide_distrib)
  also have "\<dots> \<le> (?n * ?n) / ?n"
    using pair_weight_bound[where i = i and j = j and rows = rows] n by (intro divide_right_mono) simp_all
  also have "\<dots> = ?n" using n by simp
  finally have G: "sum_list (map (\<lambda>r. ?G (r ! i, r ! j)) rows) \<le> ?n" .
  have "0 \<le> (?n - sum_list (map (\<lambda>r. ?G (r ! i, r ! j)) rows)) / ln 2"
    using G by simp
  also have "\<dots> = sum_list (map (\<lambda>r. (1 - ?G (r ! i, r ! j)) / ln 2) rows)"
    by (rule sum_list_one_minus[symmetric])
  finally have "0 \<le> ?n * entropy_of ?cs - ?n * average_of i j rows" using le by simp
  then have "0 \<le> ?n * (entropy_of ?cs - average_of i j rows)" by (simp add: algebra_simps)
  with n show ?thesis by (simp add: zero_le_mult_iff)
qed

lemma gain_of_nonneg: "0 \<le> gain_of cols class rows v"
  using average_le_entropy[of "index_of cols v" "index_of cols class" rows]
  by (simp add: gain_of_def)

end
